theory Spec2Isabelle
  imports Main "HOL-Library.Word"
begin

section \<open>Run-time behaviour of the code emitted by numba/targets/iterators.py\<close>

text \<open>
  The functions of \<^verbatim>\<open>iterators.py\<close> emit low-level code through a builder. The
  embedding below gives the behaviour of the emitted code: a \<^verbatim>\<open>builder.load\<close> reads a
  memory cell, a \<^verbatim>\<open>builder.store\<close> writes one, \<^verbatim>\<open>with builder.if_then(c)\<close> runs its
  body when \<^verbatim>\<open>c\<close> holds, and a Python-level \<^verbatim>\<open>for\<close> over the sources of a zip is
  unrolled in order. The type \<open>'w word\<close> is
  \<^verbatim>\<open>types.intp\<close>, of whatever width \<open>'w\<close> the target has; \<open>'e\<close> is the type of the elements
  held by the sequences that are iterated.
\<close>

subsection \<open>Values, iteration results and statuses\<close>

type_synonym addr = nat

datatype ('i, 'e) val =
    Intp 'i
  | Elem 'e
  | Struct "('i, 'e) val list"

text \<open>
  The pair a lowered \<^verbatim>\<open>iternext\<close> returns: the yielded value and the validity flag.
\<close>

record ('i, 'e) pairobj =
  first :: "('i, 'e) val"
  second :: bool

text \<open>
  The status a generator's resume procedure returns. \<^verbatim>\<open>iterators.py\<close> reads the three
  flags \<^verbatim>\<open>is_ok\<close>, \<^verbatim>\<open>is_stop_iteration\<close> and \<^verbatim>\<open>is_error\<close>; how the calling convention
  computes them from the return code is not part of these sources, so they are three
  independent fields here.
\<close>

record status =
  retcode :: int
  is_ok :: bool
  is_stop_iteration :: bool
  is_error :: bool

text \<open>
  Iterator values. An enumerate structure holds the pointer to its counter cell and the
  source iterator; a zip structure holds its source iterators in order. Sequence
  iterators and generator handles are the iterators this file does not implement itself.
\<close>

datatype iterv =
    SeqIter addr
  | EnumV addr iterv
  | ZipV "iterv list"
  | GenV addr

text \<open>
  The machine state: the \<^verbatim>\<open>intp\<close> cells made by \<^verbatim>\<open>alloca_once\<close>, the remaining elements
  of every sequence iterator, the future outcomes of every generator, the next free
  address, and a log of the \<^verbatim>\<open>iternext\<close> invocations made so far (a ghost field: no
  emitted code reads it).
\<close>

record ('i, 'e) mstate =
  mem :: "addr \<Rightarrow> 'i"
  seqs :: "addr \<Rightarrow> ('i, 'e) val list"
  gens :: "addr \<Rightarrow> nat \<Rightarrow> status \<times> ('i, 'e) val"
  nxt :: addr
  calls :: "iterv list"

type_synonym ('i, 'e, 'a) exec = "('i, 'e) mstate \<Rightarrow> (status + 'a) \<times> ('i, 'e) mstate"

text \<open>
  Modelled from the spec: the result object \<^verbatim>\<open>_IternextResult\<close> of
  \<^verbatim>\<open>numba.targets.imputils\<close>, which is not among the sources. An iteration result is
  Valid(value) or Exhausted: \<^verbatim>\<open>set_valid\<close> and \<^verbatim>\<open>set_exhausted\<close> write the validity flag
  of the pair, \<^verbatim>\<open>yield_\<close> writes its value, \<^verbatim>\<open>is_valid\<close> and \<^verbatim>\<open>yielded_value\<close> read them.
\<close>

definition set_valid :: "bool \<Rightarrow> ('w word, 'e) pairobj \<Rightarrow> ('w word, 'e) pairobj" where
  "set_valid b result = result\<lparr>second := b\<rparr>"

definition set_exhausted :: "('w word, 'e) pairobj \<Rightarrow> ('w word, 'e) pairobj" where
  "set_exhausted result = result\<lparr>second := False\<rparr>"

definition yield_val :: "('w word, 'e) val \<Rightarrow> ('w word, 'e) pairobj \<Rightarrow> ('w word, 'e) pairobj" where
  "yield_val v result = result\<lparr>first := v\<rparr>"

definition is_valid :: "('w word, 'e) pairobj \<Rightarrow> bool" where
  "is_valid srcres = second srcres"

definition yielded_value :: "('w word, 'e) pairobj \<Rightarrow> ('w word, 'e) val" where
  "yielded_value srcres = first srcres"

text \<open>
  Modelled from the spec: \<^verbatim>\<open>call_conv.return_status_propagate\<close>, which is not among the
  sources. A propagated failure bypasses the Valid/Exhausted channel and unwinds through
  the shared status-propagation mechanism: the emitted code returns the status from the
  function being compiled, so nothing emitted after it runs. In an \<open>exec\<close> that is the
  left injection, which every later step passes on.
\<close>

definition return_status_propagate :: "status \<Rightarrow> ('w word, 'e, 'a) exec" where
  "return_status_propagate st \<sigma> = (Inl st, \<sigma>)"

subsection \<open>The iterators implemented elsewhere\<close>

text \<open>
  Modelled from the spec: the iterator of a source sequence, whose lowering is not among
  the sources. It yields the elements of the sequence in order and then reports
  Exhausted; its cell holds the elements not yet yielded.
\<close>

definition iternext_seq :: "('w word, 'e) pairobj \<Rightarrow> addr \<Rightarrow> ('w word, 'e, ('w word, 'e) pairobj) exec" where
  "iternext_seq u a \<sigma> =
     (case seqs \<sigma> a of
        [] \<Rightarrow> (Inr (set_exhausted u), \<sigma>)
      | x # xs \<Rightarrow> (Inr (yield_val x (set_valid True u)), \<sigma>\<lparr>seqs := (seqs \<sigma>)(a := xs)\<rparr>))"

text \<open>
  Modelled from the spec: the bound resume procedure of a generator handle
  (\<^verbatim>\<open>context.get_generator_impl\<close>), which is not among the sources. Each call advances the
  suspended computation by one step and returns a status and a value; the handle's cell
  holds the outcomes of all future steps.
\<close>

definition get_generator_impl ::
  "addr \<Rightarrow> ('w word, 'e) mstate \<Rightarrow> (status \<times> ('w word, 'e) val) \<times> ('w word, 'e) mstate" where
  "get_generator_impl g \<sigma> =
     (gens \<sigma> g 0, \<sigma>\<lparr>gens := (gens \<sigma>)(g := (\<lambda>k. gens \<sigma> g (Suc k)))\<rparr>)"

subsection \<open>enumerate\<close>

text \<open>
  \<^verbatim>\<open>iternext_enumerate\<close>. The argument \<open>ci\<close> is \<^verbatim>\<open>call_iternext\<close>, which dispatches on the
  type of the source; \<open>u\<close> is the content of the freshly made, not yet written result
  pair.
\<close>

definition iternext_enumerate ::
  "(iterv \<Rightarrow> ('w::len word, 'e, ('w word, 'e) pairobj) exec) \<Rightarrow> ('w word, 'e) pairobj \<Rightarrow> addr \<Rightarrow> iterv
     \<Rightarrow> ('w word, 'e, ('w word, 'e) pairobj) exec" where
  "iternext_enumerate ci u enum_count enum_iter \<sigma> =
     (let count = mem \<sigma> enum_count;
          ncount = count + 1;
          \<sigma>1 = \<sigma>\<lparr>mem := (mem \<sigma>)(enum_count := ncount)\<rparr>
      in case ci enum_iter \<sigma>1 of
           (Inl st, \<sigma>2) \<Rightarrow> (Inl st, \<sigma>2)
         | (Inr srcres, \<sigma>2) \<Rightarrow>
             (let valid = is_valid srcres;
                  result = set_valid valid u
              in if valid
                 then (let srcval = yielded_value srcres
                       in (Inr (yield_val (Struct [Intp count, srcval]) result), \<sigma>2))
                 else (Inr result, \<sigma>2)))"

subsection \<open>zip\<close>

text \<open>
  The unrolled loop of \<^verbatim>\<open>iternext_zip\<close> over the sources, with the validity and the
  values gathered so far.
\<close>

fun zip_loop ::
  "(iterv \<Rightarrow> ('w word, 'e, ('w word, 'e) pairobj) exec) \<Rightarrow> iterv list \<Rightarrow> bool \<Rightarrow> ('w word, 'e) val list
     \<Rightarrow> ('w word, 'e, bool \<times> ('w word, 'e) val list) exec" where
  "zip_loop ci [] valid vals \<sigma> = (Inr (valid, vals), \<sigma>)"
| "zip_loop ci (iterobj # rest) valid vals \<sigma> =
     (case ci iterobj \<sigma> of
        (Inl st, \<sigma>') \<Rightarrow> (Inl st, \<sigma>')
      | (Inr srcres, \<sigma>') \<Rightarrow>
          zip_loop ci rest (valid \<and> is_valid srcres) (vals @ [yielded_value srcres]) \<sigma>')"

definition iternext_zip ::
  "(iterv \<Rightarrow> ('w word, 'e, ('w word, 'e) pairobj) exec) \<Rightarrow> ('w word, 'e) pairobj \<Rightarrow> iterv list
     \<Rightarrow> ('w word, 'e, ('w word, 'e) pairobj) exec" where
  "iternext_zip ci u zipobj \<sigma> =
     (if length zipobj = 0 then (Inr (set_exhausted u), \<sigma>)
      else case zip_loop ci zipobj True [] \<sigma> of
             (Inl st, \<sigma>') \<Rightarrow> (Inl st, \<sigma>')
           | (Inr (valid, vals), \<sigma>') \<Rightarrow>
               (let result = set_valid valid u
                in if valid then (Inr (yield_val (Struct vals) result), \<sigma>')
                   else (Inr result, \<sigma>')))"

subsection \<open>Generators\<close>

text \<open>
  The \<^verbatim>\<open>iternext\<close> of generators (the source names this function \<^verbatim>\<open>iternext_zip\<close> again).
  Its three conditional blocks run one after the other.
\<close>

definition iternext_zip_generator ::
  "('w word, 'e) pairobj \<Rightarrow> addr \<Rightarrow> ('w word, 'e, ('w word, 'e) pairobj) exec" where
  "iternext_zip_generator u gen \<sigma> =
     (case get_generator_impl gen \<sigma> of
        ((status, retval), \<sigma>1) \<Rightarrow>
          (let result = u;
               result = (if is_ok status then yield_val retval (set_valid True result) else result);
               result = (if is_stop_iteration status then set_exhausted result else result)
           in if is_error status \<and> \<not> is_stop_iteration status
              then return_status_propagate status \<sigma>1
              else (Inr result, \<sigma>1)))"

subsection \<open>Dispatch\<close>

lemma zip_loop_cong [fundef_cong]:
  assumes "its = its'" "valid = valid'" "vals = vals'" "\<sigma> = \<sigma>'"
    and "\<And>it \<tau>. it \<in> set its' \<Longrightarrow> ci it \<tau> = ci' it \<tau>"
  shows "zip_loop ci its valid vals \<sigma> = zip_loop ci' its' valid' vals' \<sigma>'"
  using assms(5) unfolding assms(1-4)
proof (induction its' arbitrary: valid' vals' \<sigma>')
  case Nil
  show ?case by simp
next
  case (Cons it rest)
  have hd: "ci it \<sigma>' = ci' it \<sigma>'" using Cons.prems by simp
  have tl: "\<And>v vs \<tau>. zip_loop ci rest v vs \<tau> = zip_loop ci' rest v vs \<tau>"
    using Cons.IH Cons.prems by simp
  show ?case by (simp add: hd tl split: prod.splits sum.splits)
qed

lemma iternext_zip_cong [fundef_cong]:
  assumes "u = u'" "its = its'" "\<sigma> = \<sigma>'"
    and "\<And>it \<tau>. it \<in> set its' \<Longrightarrow> ci it \<tau> = ci' it \<tau>"
  shows "iternext_zip ci u its \<sigma> = iternext_zip ci' u' its' \<sigma>'"
proof -
  have "zip_loop ci its' True [] \<sigma>' = zip_loop ci' its' True [] \<sigma>'"
    using assms(4) by (rule zip_loop_cong [OF refl refl refl refl])
  then show ?thesis unfolding assms(1-3) iternext_zip_def by simp
qed

lemma iternext_enumerate_cong [fundef_cong]:
  assumes "u = u'" "c = c'" "src = src'" "\<sigma> = \<sigma>'"
    and "\<And>\<tau>. ci src' \<tau> = ci' src' \<tau>"
  shows "iternext_enumerate ci u c src \<sigma> = iternext_enumerate ci' u' c' src' \<sigma>'"
  unfolding assms(1-4) iternext_enumerate_def by (simp add: assms(5))

text \<open>
  Modelled from the spec: \<^verbatim>\<open>call_iternext\<close> and the \<^verbatim>\<open>iternext_impl\<close> decorator of
  \<^verbatim>\<open>numba.targets.imputils\<close>, which are not among the sources. \<^verbatim>\<open>call_iternext\<close> runs the
  \<^verbatim>\<open>iternext\<close> implementation registered for the type of the iterator, on a fresh result
  pair. The invocation is entered in the log before the implementation runs.
\<close>

definition note_call :: "iterv \<Rightarrow> ('w word, 'e) mstate \<Rightarrow> ('w word, 'e) mstate" where
  "note_call it \<sigma> = \<sigma>\<lparr>calls := calls \<sigma> @ [it]\<rparr>"

fun call_iternext ::
  "('w::len word, 'e) pairobj \<Rightarrow> iterv \<Rightarrow> ('w word, 'e, ('w word, 'e) pairobj) exec" where
  "call_iternext u (SeqIter a) \<sigma> = iternext_seq u a (note_call (SeqIter a) \<sigma>)"
| "call_iternext u (EnumV c src) \<sigma> =
     iternext_enumerate (\<lambda>it \<tau>. call_iternext u it \<tau>) u c src (note_call (EnumV c src) \<sigma>)"
| "call_iternext u (ZipV its) \<sigma> =
     iternext_zip (\<lambda>it \<tau>. call_iternext u it \<tau>) u its (note_call (ZipV its) \<sigma>)"
| "call_iternext u (GenV g) \<sigma> = iternext_zip_generator u g (note_call (GenV g) \<sigma>)"

subsection \<open>Obtaining iterators and building the combinators\<close>

datatype ('i, 'e) iterable =
    Sequence "('i, 'e) val list"
  | Iterator iterv

text \<open>
  Modelled from the spec: \<^verbatim>\<open>impl_ret_borrowed\<close> and \<^verbatim>\<open>impl_ret_new_ref\<close> of
  \<^verbatim>\<open>numba.targets.imputils\<close>, which are not among the sources. Both hand back the value
  they are given, as a borrowed alias or as a new owned instance; reference counts
  belong to the memory-management collaborator and are not part of the state.
\<close>

definition impl_ret_borrowed :: "'a \<Rightarrow> ('w word, 'e) mstate \<Rightarrow> 'a \<times> ('w word, 'e) mstate" where
  "impl_ret_borrowed ret \<sigma> = (ret, \<sigma>)"

definition impl_ret_new_ref :: "'a \<Rightarrow> ('w word, 'e) mstate \<Rightarrow> 'a \<times> ('w word, 'e) mstate" where
  "impl_ret_new_ref ret \<sigma> = (ret, \<sigma>)"

text \<open>
  Modelled from the spec: \<^verbatim>\<open>cgutils.alloca_once\<close>, which is not among the sources: a
  cell of its own for the value that is being built.
\<close>

definition alloca_once :: "('w word, 'e) mstate \<Rightarrow> addr \<times> ('w word, 'e) mstate" where
  "alloca_once \<sigma> = (nxt \<sigma>, \<sigma>\<lparr>nxt := Suc (nxt \<sigma>)\<rparr>)"

definition iterator_getiter :: "iterv \<Rightarrow> ('w word, 'e) mstate \<Rightarrow> iterv \<times> ('w word, 'e) mstate" where
  "iterator_getiter it \<sigma> = impl_ret_borrowed it \<sigma>"

text \<open>
  Modelled from the spec: the \<^verbatim>\<open>getiter\<close> of a sequence, whose lowering is not among the
  sources: a fresh, independently owned iterator that has yielded nothing yet.
\<close>

definition sequence_getiter ::
  "('w word, 'e) val list \<Rightarrow> ('w word, 'e) mstate \<Rightarrow> iterv \<times> ('w word, 'e) mstate" where
  "sequence_getiter S \<sigma> =
     (case alloca_once \<sigma> of
        (a, \<sigma>1) \<Rightarrow> impl_ret_new_ref (SeqIter a) (\<sigma>1\<lparr>seqs := (seqs \<sigma>1)(a := S)\<rparr>))"

text \<open>
  Modelled from the spec: \<^verbatim>\<open>call_getiter\<close> of \<^verbatim>\<open>numba.targets.imputils\<close>, which is not
  among the sources: it runs the \<^verbatim>\<open>getiter\<close> implementation registered for the type of
  its argument.
\<close>

fun call_getiter ::
  "('w word, 'e) iterable \<Rightarrow> ('w word, 'e) mstate \<Rightarrow> iterv \<times> ('w word, 'e) mstate" where
  "call_getiter (Sequence S) \<sigma> = sequence_getiter S \<sigma>"
| "call_getiter (Iterator it) \<sigma> = iterator_getiter it \<sigma>"

text \<open>
  The arguments of \<^verbatim>\<open>enumerate\<close>: an iterable and, in the two-argument form, an integer
  of any integer type, given here by its numeric value.
\<close>

datatype ('i, 'e) arg =
    IterableArg "('i, 'e) iterable"
  | IntegerArg int

datatype lowering_error = NoImplementation

text \<open>
  Modelled from the spec: \<^verbatim>\<open>context.cast\<close> to \<^verbatim>\<open>types.intp\<close>, which is not among the
  sources. The starting integer is sign-extended, zero-extended or truncated to the
  width of \<^verbatim>\<open>intp\<close>; each of them keeps the value modulo \<open>2 ^ LENGTH('w)\<close>.
\<close>

definition cast_intp :: "int \<Rightarrow> 'w::len word" where
  "cast_intp n = word_of_int n"

text \<open>
  The part of \<^verbatim>\<open>make_enumerate_object\<close> that follows the choice of \<^verbatim>\<open>src\<close> and
  \<^verbatim>\<open>start_val\<close>.
\<close>

definition enumerate_object ::
  "('w::len word, 'e) iterable \<Rightarrow> 'w word \<Rightarrow> ('w word, 'e) mstate \<Rightarrow> iterv \<times> ('w word, 'e) mstate" where
  "enumerate_object src start_val \<sigma> =
     (case call_getiter src \<sigma> of
        (iterobj, \<sigma>1) \<Rightarrow>
          (case alloca_once \<sigma>1 of
             (countptr, \<sigma>2) \<Rightarrow>
               impl_ret_new_ref (EnumV countptr iterobj)
                 (\<sigma>2\<lparr>mem := (mem \<sigma>2)(countptr := start_val)\<rparr>)))"

text \<open>
  \<^verbatim>\<open>make_enumerate_object\<close> is registered for the argument types (iterable) and
  (iterable, integer); for any other arguments no implementation is found.
\<close>

fun make_enumerate_object ::
  "('w::len word, 'e) arg list \<Rightarrow> ('w word, 'e) mstate
     \<Rightarrow> lowering_error + iterv \<times> ('w word, 'e) mstate" where
  "make_enumerate_object [IterableArg src] \<sigma> = Inr (enumerate_object src 0 \<sigma>)"
| "make_enumerate_object [IterableArg src, IntegerArg n] \<sigma> =
     Inr (enumerate_object src (cast_intp n) \<sigma>)"
| "make_enumerate_object args \<sigma> = Inl NoImplementation"

text \<open>
  The loop of \<^verbatim>\<open>make_zip_object\<close>: \<^verbatim>\<open>call_getiter\<close> on every argument, in order.
\<close>

fun zip_getiters ::
  "('w word, 'e) iterable list \<Rightarrow> ('w word, 'e) mstate \<Rightarrow> iterv list \<times> ('w word, 'e) mstate" where
  "zip_getiters [] \<sigma> = ([], \<sigma>)"
| "zip_getiters (arg # rest) \<sigma> =
     (case call_getiter arg \<sigma> of
        (it, \<sigma>1) \<Rightarrow> (case zip_getiters rest \<sigma>1 of (its, \<sigma>2) \<Rightarrow> (it # its, \<sigma>2)))"

definition make_zip_object ::
  "('w word, 'e) iterable list \<Rightarrow> ('w word, 'e) mstate \<Rightarrow> iterv \<times> ('w word, 'e) mstate" where
  "make_zip_object args \<sigma> =
     (case zip_getiters args \<sigma> of (zipobj, \<sigma>') \<Rightarrow> impl_ret_new_ref (ZipV zipobj) \<sigma>')"

subsection \<open>The loop that consumes an iterator\<close>

datatype ('i, 'e) IterationResult =
    Valid "('i, 'e) val"
  | Exhausted
  | PropagatedFailure status

text \<open>
  Modelled from the spec: the protocol operation \<^verbatim>\<open>iternext\<close> as the loop-lowering driver
  sees it. It returns exactly one of Valid(value), Exhausted and
  PropagatedFailure(status).
\<close>

definition iternext ::
  "('w::len word, 'e) pairobj \<Rightarrow> iterv \<Rightarrow> ('w word, 'e) mstate
     \<Rightarrow> ('w word, 'e) IterationResult \<times> ('w word, 'e) mstate" where
  "iternext u it \<sigma> =
     (case call_iternext u it \<sigma> of
        (Inl st, \<sigma>') \<Rightarrow> (PropagatedFailure st, \<sigma>')
      | (Inr res, \<sigma>') \<Rightarrow> (if is_valid res then Valid (yielded_value res) else Exhausted, \<sigma>'))"

text \<open>
  Modelled from the spec: the loop-lowering driver, which is out of the sources' scope.
  It calls \<^verbatim>\<open>iternext\<close> until the result is not Valid, at most \<open>n\<close> times, and returns the
  results of its calls in order.
\<close>

fun drive ::
  "nat \<Rightarrow> ('w::len word, 'e) pairobj \<Rightarrow> iterv \<Rightarrow> ('w word, 'e) mstate
     \<Rightarrow> ('w word, 'e) IterationResult list \<times> ('w word, 'e) mstate" where
  "drive 0 u it \<sigma> = ([], \<sigma>)"
| "drive (Suc n) u it \<sigma> =
     (case iternext u it \<sigma> of
        (Valid v, \<sigma>') \<Rightarrow> (case drive n u it \<sigma>' of (rs, \<sigma>'') \<Rightarrow> (Valid v # rs, \<sigma>''))
      | (Exhausted, \<sigma>') \<Rightarrow> ([Exhausted], \<sigma>')
      | (PropagatedFailure st, \<sigma>') \<Rightarrow> ([PropagatedFailure st], \<sigma>'))"

subsection \<open>Concrete statuses, states and scenarios\<close>

text \<open>
  Three statuses: Ok; Stopped, which is flagged as an error too; and Errored without
  Stopped.
\<close>

definition ok_status :: status where
  "ok_status = \<lparr>retcode = 0, is_ok = True, is_stop_iteration = False, is_error = False\<rparr>"

definition stopped :: status where
  "stopped = \<lparr>retcode = -3, is_ok = False, is_stop_iteration = True, is_error = True\<rparr>"

definition errored :: status where
  "errored = \<lparr>retcode = 1, is_ok = False, is_stop_iteration = False, is_error = True\<rparr>"

text \<open>
  A state in which nothing has been allocated, and some content of a result pair that
  has not been written yet.
\<close>

definition empty_state :: "(64 word, nat) mstate" where
  "empty_state = \<lparr>mem = (\<lambda>_. 0), seqs = (\<lambda>_. []), gens = (\<lambda>_ _. (stopped, Struct [])),
     nxt = 0, calls = []\<rparr>"

definition fresh_pair :: "(64 word, nat) pairobj" where
  "fresh_pair = \<lparr>first = Struct [], second = True\<rparr>"

text \<open>A state whose generators all have the given outcomes ahead of them.\<close>

definition generator_state ::
  "(nat \<Rightarrow> status \<times> (64 word, nat) val) \<Rightarrow> (64 word, nat) mstate" where
  "generator_state outcomes = empty_state\<lparr>gens := (\<lambda>_. outcomes)\<rparr>"

text \<open>Scenario A of the specification: enumerate over 10, 20, 30 with start 5.\<close>

definition scenario_A :: "(64 word, nat) arg list" where
  "scenario_A = [IterableArg (Sequence [Elem 10, Elem 20, Elem 30]), IntegerArg 5]"

definition scenario_A_state :: "(64 word, nat) mstate" where
  "scenario_A_state = snd (enumerate_object (Sequence [Elem 10, Elem 20, Elem 30]) 5 empty_state)"

text \<open>An enumerate over two elements that starts at the largest 64-bit \<^verbatim>\<open>intp\<close>.\<close>

definition scenario_wrap_state :: "(64 word, nat) mstate" where
  "scenario_wrap_state =
     snd (enumerate_object (Sequence [Elem 10, Elem 20]) 9223372036854775807 empty_state)"

text \<open>Scenario B of the specification: zip over 1, 2, 3 and 9, 8.\<close>

definition scenario_B :: "(64 word, nat) val list list" where
  "scenario_B = [[Elem 1, Elem 2, Elem 3], [Elem 9, Elem 8]]"

definition scenario_B_state :: "(64 word, nat) mstate" where
  "scenario_B_state = snd (make_zip_object (map Sequence scenario_B) empty_state)"

text \<open>Scenario C of the specification: zip over an empty sequence and 1, 2.\<close>

definition scenario_C_state :: "(64 word, nat) mstate" where
  "scenario_C_state = snd (make_zip_object [Sequence [], Sequence [Elem 1, Elem 2]] empty_state)"

text \<open>A zip whose second source is a generator that fails.\<close>

definition failing_state :: "(64 word, nat) mstate" where
  "failing_state =
     snd (make_zip_object [Sequence [Elem 1], Iterator (GenV 7), Sequence [Elem 2]]
            (generator_state (\<lambda>_. (errored, Struct []))))"

text \<open>Running an enumerate from its arguments: lowering, then the driving loop.\<close>

definition lower_and_drive_enumerate ::
  "nat \<Rightarrow> ('w::len word, 'e) pairobj \<Rightarrow> ('w word, 'e) arg list \<Rightarrow> ('w word, 'e) mstate
     \<Rightarrow> lowering_error + ('w word, 'e) IterationResult list \<times> ('w word, 'e) mstate" where
  "lower_and_drive_enumerate n u args \<sigma> =
     (case make_enumerate_object args \<sigma> of
        Inl e \<Rightarrow> Inl e
      | Inr (enum, \<sigma>') \<Rightarrow> Inr (drive n u enum \<sigma>'))"

section \<open>Properties\<close>

subsection \<open>The driving loop\<close>

lemma drive_Suc_valid:
  assumes "iternext u it \<sigma> = (Valid v, \<sigma>')"
  shows "fst (drive (Suc n) u it \<sigma>) = Valid v # fst (drive n u it \<sigma>')"
  using assms by (simp split: prod.splits)

lemma drive_Suc_exhausted:
  assumes "fst (iternext u it \<sigma>) = Exhausted"
  shows "fst (drive (Suc n) u it \<sigma>) = [Exhausted]"
  using assms by (cases "iternext u it \<sigma>") simp

subsection \<open>enumerate over a sequence\<close>

lemma enumerate_seq_step_nil:
  assumes "seqs \<sigma> a = []"
  shows "fst (iternext u (EnumV c (SeqIter a)) \<sigma>) = Exhausted"
  using assms
  by (simp add: iternext_def iternext_enumerate_def iternext_seq_def note_call_def Let_def
      is_valid_def set_valid_def set_exhausted_def)

lemma enumerate_seq_step_cons:
  assumes "seqs \<sigma> a = x # xs"
  shows "\<exists>\<sigma>'. iternext u (EnumV c (SeqIter a)) \<sigma> = (Valid (Struct [Intp (mem \<sigma> c), x]), \<sigma>')
           \<and> seqs \<sigma>' a = xs \<and> mem \<sigma>' c = mem \<sigma> c + 1"
  using assms
  by (simp add: iternext_def iternext_enumerate_def iternext_seq_def note_call_def Let_def
      is_valid_def yielded_value_def set_valid_def yield_val_def)

lemma drive_enumerate_seq:
  assumes "seqs \<sigma> a = xs" and "mem \<sigma> c = k" and "length xs < n"
  shows "fst (drive n u (EnumV c (SeqIter a)) \<sigma>)
           = map (\<lambda>i. Valid (Struct [Intp (k + of_nat i), xs ! i])) [0..<length xs] @ [Exhausted]"
  using assms
proof (induction xs arbitrary: \<sigma> k n)
  case Nil
  then obtain n' where n: "n = Suc n'" by (cases n) auto
  show ?case
    unfolding n using enumerate_seq_step_nil [OF Nil.prems(1)]
    by (simp only: drive_Suc_exhausted) simp
next
  case (Cons x xs)
  then obtain n' where n: "n = Suc n'" and n': "length xs < n'" by (cases n) auto
  from enumerate_seq_step_cons [OF Cons.prems(1), of u c] obtain \<sigma>' where
    step: "iternext u (EnumV c (SeqIter a)) \<sigma> = (Valid (Struct [Intp (mem \<sigma> c), x]), \<sigma>')"
    and inv: "seqs \<sigma>' a = xs" "mem \<sigma>' c = mem \<sigma> c + 1"
    by blast
  have rest: "fst (drive n' u (EnumV c (SeqIter a)) \<sigma>')
      = map (\<lambda>i. Valid (Struct [Intp ((k + 1) + of_nat i), xs ! i])) [0..<length xs] @ [Exhausted]"
    using Cons.IH [OF inv(1) _ n', of "k + 1"] inv(2) Cons.prems(2) by simp
  have shift: "map (\<lambda>i. Valid (Struct [Intp (k + of_nat i), (x # xs) ! i])) [0..<length (x # xs)]
      = Valid (Struct [Intp k, x])
        # map (\<lambda>i. Valid (Struct [Intp ((k + 1) + of_nat i), xs ! i])) [0..<length xs]"
    by (simp add: map_upt_Suc add.assoc del: upt_Suc)
  show ?case
    unfolding shift n drive_Suc_valid [OF step] rest using Cons.prems(2) by simp
qed

text \<open>
  An integer within the range of \<^verbatim>\<open>intp\<close> is kept by the conversion to \<^verbatim>\<open>intp\<close>.
\<close>

lemma cast_intp_exact:
  assumes "- (2 ^ (LENGTH('w::len) - 1)) \<le> n" and "n < 2 ^ (LENGTH('w) - 1)"
  shows "sint (cast_intp n :: 'w word) = n"
  unfolding cast_intp_def sint_sbintrunc' using assms
  by (intro signed_take_bit_int_eq_self) simp_all

text \<open>
  Claim C1, as amended. For every source sequence \<open>S\<close> and starting integer \<open>s0\<close>, the
  enumerate built over \<open>S\<close> with start \<open>s0\<close>, driven for more than \<open>length S\<close> calls, yields
  exactly one pair for each \<open>i = 0 .. length S - 1\<close>, in that order, and then returns
  Exhausted. The \<open>i\<close>-th pair holds \<open>S ! i\<close> and, as its index, the integer \<open>s0 + i\<close> reduced
  to the width of \<^verbatim>\<open>intp\<close> (the counter is an \<^verbatim>\<open>intp\<close> cell and \<^verbatim>\<open>builder.add\<close> wraps around);
  the index is the integer \<open>s0 + i\<close> itself whenever \<open>s0 + i\<close> lies within the range of \<^verbatim>\<open>intp\<close>.
\<close>

theorem enumerate_yields_indexed_pairs:
  assumes "make_enumerate_object [IterableArg (Sequence S), IntegerArg s0] \<sigma> = Inr (enum, \<sigma>')"
    and "length S < n"
  shows "fst (drive n u enum \<sigma>')
           = map (\<lambda>i. Valid (Struct [Intp (cast_intp (s0 + int i) :: 'w::len word), S ! i]))
               [0..<length S]
             @ [Exhausted]
       \<and> (\<forall>i<length S. - (2 ^ (LENGTH('w) - 1)) \<le> s0 + int i \<and> s0 + int i < 2 ^ (LENGTH('w) - 1)
             \<longrightarrow> sint (cast_intp (s0 + int i) :: 'w word) = s0 + int i)"
proof (rule conjI)
  from assms(1) have enum: "enum = EnumV (Suc (nxt \<sigma>)) (SeqIter (nxt \<sigma>))"
    and seqs: "seqs \<sigma>' (nxt \<sigma>) = S"
    and mem: "mem \<sigma>' (Suc (nxt \<sigma>)) = cast_intp s0"
    by (auto simp add: enumerate_object_def sequence_getiter_def alloca_once_def
        impl_ret_new_ref_def)
  have idx: "\<And>i. (cast_intp (s0 + int i) :: 'w word) = cast_intp s0 + of_nat i"
    by (simp add: cast_intp_def)
  show "fst (drive n u enum \<sigma>')
           = map (\<lambda>i. Valid (Struct [Intp (cast_intp (s0 + int i) :: 'w word), S ! i]))
               [0..<length S]
             @ [Exhausted]"
    unfolding enum idx by (rule drive_enumerate_seq [OF seqs mem assms(2)])
next
  show "\<forall>i<length S. - (2 ^ (LENGTH('w) - 1)) \<le> s0 + int i \<and> s0 + int i < 2 ^ (LENGTH('w) - 1)
          \<longrightarrow> sint (cast_intp (s0 + int i) :: 'w word) = s0 + int i"
    by (simp add: cast_intp_exact)
qed

theorem enumerate_yields_indexed_pairs_witness:
  "make_enumerate_object scenario_A empty_state = Inr (EnumV 1 (SeqIter 0), scenario_A_state)
   \<and> length [Elem 10, Elem 20, Elem (30::nat) :: (64 word, nat) val] < 4
   \<and> fst (drive 4 fresh_pair (EnumV 1 (SeqIter 0)) scenario_A_state)
     = [Valid (Struct [Intp 5, Elem 10]), Valid (Struct [Intp 6, Elem 20]),
        Valid (Struct [Intp 7, Elem 30]), Exhausted]
   \<and> 2 < length [Elem 10, Elem 20, Elem (30::nat) :: (64 word, nat) val]
   \<and> - (2 ^ (LENGTH(64) - 1)) \<le> 5 + int 2 \<and> 5 + int 2 < 2 ^ (LENGTH(64) - 1)
   \<and> sint (cast_intp (5 + int 2) :: 64 word) = 5 + int 2"
proof -
  have h1: "make_enumerate_object [IterableArg (Sequence [Elem 10, Elem 20, Elem 30]), IntegerArg 5]
       empty_state
     = Inr (EnumV 1 (SeqIter 0), scenario_A_state)"
    by (simp add: scenario_A_state_def enumerate_object_def sequence_getiter_def alloca_once_def
        impl_ret_new_ref_def empty_state_def cast_intp_def)
  have h2: "length [Elem 10, Elem 20, Elem (30::nat) :: (64 word, nat) val] < 4"
    by simp
  have e: "map (\<lambda>i. Valid (Struct [Intp (cast_intp (5 + int i) :: 64 word),
              [Elem 10, Elem 20, Elem (30::nat)] ! i]))
            [0..<length [Elem 10, Elem 20, Elem (30::nat) :: (64 word, nat) val]] @ [Exhausted]
      = [Valid (Struct [Intp 5, Elem 10]), Valid (Struct [Intp 6, Elem 20]),
         Valid (Struct [Intp 7, Elem 30]), Exhausted]"
    by (simp add: cast_intp_def upt_rec)
  note both = enumerate_yields_indexed_pairs [OF h1 h2, of fresh_pair]
  have c: "fst (drive 4 fresh_pair (EnumV 1 (SeqIter 0)) scenario_A_state)
     = [Valid (Struct [Intp 5, Elem 10]), Valid (Struct [Intp 6, Elem 20]),
        Valid (Struct [Intp 7, Elem 30]), Exhausted]"
    using both [THEN conjunct1] by (simp only: e)
  have i: "2 < length [Elem 10, Elem 20, Elem (30::nat) :: (64 word, nat) val]"
    by simp
  have r: "- (2 ^ (LENGTH(64) - 1)) \<le> 5 + int 2 \<and> 5 + int 2 < 2 ^ (LENGTH(64) - 1)"
    by simp
  note v = both [THEN conjunct2, THEN spec, THEN mp, OF i, THEN mp, OF r]
  show ?thesis
    unfolding scenario_A_def using h1 h2 c i r [THEN conjunct1] r [THEN conjunct2] v
    by (intro conjI)
qed

text \<open>
  Claim C1 as it is stated, with the index the integer \<open>s0 + i\<close> for every starting
  integer, fails at the largest 64-bit \<^verbatim>\<open>intp\<close>: the enumerate that starts at
  \<open>9223372036854775807\<close> yields as its second index the \<^verbatim>\<open>intp\<close> whose value is
  \<open>- 9223372036854775808\<close>, which is not \<open>9223372036854775807 + 1\<close>.
\<close>

theorem enumerate_index_wraps_counterexample:
  "make_enumerate_object
       [IterableArg (Sequence [Elem 10, Elem 20]), IntegerArg 9223372036854775807] empty_state
     = Inr (EnumV 1 (SeqIter 0), scenario_wrap_state)
   \<and> fst (drive 3 fresh_pair (EnumV 1 (SeqIter 0)) scenario_wrap_state)
     = [Valid (Struct [Intp 9223372036854775807, Elem 10]),
        Valid (Struct [Intp (- 9223372036854775808), Elem 20]), Exhausted]
   \<and> sint (- 9223372036854775808 :: 64 word) = - 9223372036854775808
   \<and> (- 9223372036854775808 :: int) \<noteq> 9223372036854775807 + 1"
proof -
  have a: "make_enumerate_object
       [IterableArg (Sequence [Elem 10, Elem 20]), IntegerArg 9223372036854775807] empty_state
     = Inr (EnumV 1 (SeqIter 0), scenario_wrap_state)"
    by (simp add: scenario_wrap_state_def enumerate_object_def sequence_getiter_def
        alloca_once_def impl_ret_new_ref_def empty_state_def cast_intp_def)
  have "fst (drive (Suc (Suc (Suc 0))) fresh_pair (EnumV 1 (SeqIter 0)) scenario_wrap_state)
     = [Valid (Struct [Intp 9223372036854775807, Elem 10]),
        Valid (Struct [Intp (- 9223372036854775808), Elem 20]), Exhausted]"
    by (simp add: iternext_def scenario_wrap_state_def enumerate_object_def
        sequence_getiter_def alloca_once_def impl_ret_new_ref_def empty_state_def
        iternext_enumerate_def iternext_seq_def note_call_def fresh_pair_def Let_def
        yield_val_def set_valid_def set_exhausted_def is_valid_def yielded_value_def)
  then have b: "fst (drive 3 fresh_pair (EnumV 1 (SeqIter 0)) scenario_wrap_state)
     = [Valid (Struct [Intp 9223372036854775807, Elem 10]),
        Valid (Struct [Intp (- 9223372036854775808), Elem 20]), Exhausted]"
    by (simp only: numeral_3_eq_3)
  have c: "sint (- 9223372036854775808 :: 64 word) = - 9223372036854775808"
    by simp
  have d: "(- 9223372036854775808 :: int) \<noteq> 9223372036854775807 + 1"
    by simp
  show ?thesis using a b c d by (intro conjI)
qed

subsection \<open>The identity getiter\<close>

text \<open>
  Claim C7. For every value that is already an iterator, \<^verbatim>\<open>getiter\<close> returns that same
  value and leaves the state as it is (nothing is allocated, nothing is duplicated), and
  the results of driving the returned value are those of driving the original.
\<close>

theorem getiter_of_iterator_is_identity:
  "iterator_getiter it \<sigma> = (it, \<sigma>)
   \<and> call_getiter (Iterator it) \<sigma> = (it, \<sigma>)
   \<and> drive n u (fst (call_getiter (Iterator it) \<sigma>)) (snd (call_getiter (Iterator it) \<sigma>))
       = drive n u it \<sigma>"
  by (simp add: iterator_getiter_def impl_ret_borrowed_def)

theorem getiter_of_iterator_is_identity_witness:
  "iterator_getiter (EnumV 1 (SeqIter 0)) scenario_A_state = (EnumV 1 (SeqIter 0), scenario_A_state)
   \<and> call_getiter (Iterator (EnumV 1 (SeqIter 0))) scenario_A_state
       = (EnumV 1 (SeqIter 0), scenario_A_state)
   \<and> drive 4 fresh_pair (fst (call_getiter (Iterator (EnumV 1 (SeqIter 0))) scenario_A_state))
        (snd (call_getiter (Iterator (EnumV 1 (SeqIter 0))) scenario_A_state))
       = drive 4 fresh_pair (EnumV 1 (SeqIter 0)) scenario_A_state"
  by (rule getiter_of_iterator_is_identity)

subsection \<open>zip over no sources\<close>

lemma iternext_zip_empty:
  "iternext u (ZipV []) \<tau> = (Exhausted, note_call (ZipV []) \<tau>)"
  by (simp add: iternext_def iternext_zip_def set_exhausted_def is_valid_def)

text \<open>
  Claim C8. The zip built over zero sources has no source iterators, and every
  \<^verbatim>\<open>iternext\<close> call on it, in whatever state (so the first call and every later one),
  returns Exhausted; the driving loop sees Exhausted at once and no Valid result.
\<close>

theorem zip_of_no_sources_is_exhausted:
  "make_zip_object [] \<sigma> = (ZipV [], \<sigma>)
   \<and> fst (iternext u (ZipV []) \<tau>) = Exhausted
   \<and> fst (drive (Suc n) u (ZipV []) \<tau>) = [Exhausted]"
  by (simp add: make_zip_object_def impl_ret_new_ref_def iternext_zip_empty)

theorem zip_of_no_sources_is_exhausted_witness:
  "make_zip_object [] empty_state = (ZipV [], empty_state)
   \<and> fst (iternext fresh_pair (ZipV []) scenario_A_state) = Exhausted
   \<and> fst (drive (Suc 3) fresh_pair (ZipV []) scenario_A_state) = [Exhausted]"
  by (rule zip_of_no_sources_is_exhausted)

subsection \<open>The default start of enumerate\<close>

text \<open>
  Claim C9. For every source iterable, the one-argument form of enumerate builds the same
  iterator in the same state as the two-argument form with start 0, so that driving the
  two gives the same results: the same pairs in the same order and the same end.
\<close>

theorem enumerate_default_start_is_zero:
  "make_enumerate_object [IterableArg src] \<sigma>
     = make_enumerate_object [IterableArg src, IntegerArg 0] \<sigma>
   \<and> lower_and_drive_enumerate n u [IterableArg src] \<sigma>
     = lower_and_drive_enumerate n u [IterableArg src, IntegerArg 0] \<sigma>"
  by (simp add: lower_and_drive_enumerate_def cast_intp_def)

theorem enumerate_default_start_is_zero_witness:
  "make_enumerate_object [IterableArg (Sequence [Elem 10, Elem 20])] empty_state
     = make_enumerate_object [IterableArg (Sequence [Elem 10, Elem 20]), IntegerArg 0] empty_state
   \<and> lower_and_drive_enumerate 3 fresh_pair [IterableArg (Sequence [Elem 10, Elem 20])] empty_state
     = lower_and_drive_enumerate 3 fresh_pair
         [IterableArg (Sequence [Elem 10, Elem 20]), IntegerArg 0] empty_state"
  by (rule enumerate_default_start_is_zero)

subsection \<open>The generator bridge\<close>

lemma generator_step:
  assumes "gens \<sigma> g 0 = (st, v)"
  shows "call_iternext u (GenV g) \<sigma> =
     (if is_error st \<and> \<not> is_stop_iteration st then Inl st
      else Inr (if is_stop_iteration st
                then (if is_ok st then u\<lparr>second := True, first := v\<rparr> else u)\<lparr>second := False\<rparr>
                else if is_ok st then u\<lparr>second := True, first := v\<rparr> else u),
      (note_call (GenV g) \<sigma>)\<lparr>gens := (gens \<sigma>)(g := (\<lambda>k. gens \<sigma> g (Suc k)))\<rparr>)"
  using assms
  by (simp add: iternext_zip_generator_def get_generator_impl_def note_call_def
      return_status_propagate_def set_valid_def set_exhausted_def yield_val_def Let_def)

text \<open>
  Claim C5. When the resume procedure of a generator returns the status \<open>st\<close> and the
  value \<open>v\<close>: an Ok status (one that is neither Stopped nor Errored) gives Valid \<open>v\<close>; a
  Stopped status gives Exhausted; an Errored status that is not Stopped gives no pair at
  all: the emitted code leaves through \<^verbatim>\<open>return_status_propagate\<close> with \<open>st\<close>, which the
  driver sees as PropagatedFailure \<open>st\<close>.
\<close>

theorem generator_status_mapping:
  assumes "gens \<sigma> g 0 = (st, v)"
  shows "(is_ok st \<and> \<not> is_stop_iteration st \<and> \<not> is_error st
            \<longrightarrow> fst (iternext u (GenV g) \<sigma>) = Valid v)
       \<and> (is_stop_iteration st \<longrightarrow> fst (iternext u (GenV g) \<sigma>) = Exhausted)
       \<and> (is_error st \<and> \<not> is_stop_iteration st
            \<longrightarrow> fst (call_iternext u (GenV g) \<sigma>) = Inl st
              \<and> fst (iternext u (GenV g) \<sigma>) = PropagatedFailure st)"
  by (simp add: iternext_def generator_step [OF assms] is_valid_def yielded_value_def
      del: call_iternext.simps)

theorem generator_status_mapping_witness:
  "fst (iternext fresh_pair (GenV 0) (generator_state (\<lambda>_. (ok_status, Elem 1)))) = Valid (Elem 1)
   \<and> fst (iternext fresh_pair (GenV 0) (generator_state (\<lambda>_. (stopped, Struct [])))) = Exhausted
   \<and> fst (call_iternext fresh_pair (GenV 0) (generator_state (\<lambda>_. (errored, Struct []))))
       = Inl errored
   \<and> fst (iternext fresh_pair (GenV 0) (generator_state (\<lambda>_. (errored, Struct []))))
       = PropagatedFailure errored"
proof -
  have ok: "gens (generator_state (\<lambda>_. (ok_status, Elem 1))) 0 0 = (ok_status, Elem 1)"
    by (simp add: generator_state_def)
  have ok_flags: "is_ok ok_status \<and> \<not> is_stop_iteration ok_status \<and> \<not> is_error ok_status"
    by (simp add: ok_status_def)
  have stop: "gens (generator_state (\<lambda>_. (stopped, Struct []))) 0 0 = (stopped, Struct [])"
    by (simp add: generator_state_def)
  have stop_flags: "is_stop_iteration stopped"
    by (simp add: stopped_def)
  have err: "gens (generator_state (\<lambda>_. (errored, Struct []))) 0 0 = (errored, Struct [])"
    by (simp add: generator_state_def)
  have err_flags: "is_error errored \<and> \<not> is_stop_iteration errored"
    by (simp add: errored_def)
  note a = generator_status_mapping [OF ok, of fresh_pair, THEN conjunct1, THEN mp, OF ok_flags]
  note b = generator_status_mapping [OF stop, of fresh_pair, THEN conjunct2, THEN conjunct1,
      THEN mp, OF stop_flags]
  note c = generator_status_mapping [OF err, of fresh_pair, THEN conjunct2, THEN conjunct2,
      THEN mp, OF err_flags]
  show ?thesis using a b c by (intro conjI) simp_all
qed

text \<open>
  Scenario D of the specification: a generator that yields 1, then 2, then stops.
\<close>

lemma generator_scenario_D:
  "fst (drive 5 fresh_pair (GenV 0)
      (generator_state (\<lambda>k. if k = 0 then (ok_status, Elem 1)
                             else if k = 1 then (ok_status, Elem 2) else (stopped, Struct []))))
     = [Valid (Elem 1), Valid (Elem 2), Exhausted]"
  by (simp add: eval_nat_numeral iternext_def generator_state_def empty_state_def note_call_def
      iternext_zip_generator_def get_generator_impl_def return_status_propagate_def
      ok_status_def stopped_def fresh_pair_def Let_def yield_val_def set_valid_def
      set_exhausted_def is_valid_def yielded_value_def)

text \<open>
  Claim C10. When the status is Stopped and Errored at once, the bridge reports Exhausted
  and propagates nothing; a failure is propagated exactly when the status is Errored and
  not Stopped.
\<close>

theorem generator_stop_precedes_error:
  assumes "gens \<sigma> g 0 = (st, v)"
  shows "(is_stop_iteration st \<and> is_error st \<longrightarrow> fst (iternext u (GenV g) \<sigma>) = Exhausted)
       \<and> ((\<exists>f. fst (iternext u (GenV g) \<sigma>) = PropagatedFailure f)
            = (is_error st \<and> \<not> is_stop_iteration st))"
  by (auto simp add: iternext_def generator_step [OF assms] is_valid_def yielded_value_def
      simp del: call_iternext.simps)

theorem generator_stop_precedes_error_witness:
  "is_stop_iteration stopped \<and> is_error stopped
   \<and> fst (iternext fresh_pair (GenV 0) (generator_state (\<lambda>_. (stopped, Struct [])))) = Exhausted"
proof -
  have stop: "gens (generator_state (\<lambda>_. (stopped, Struct []))) 0 0 = (stopped, Struct [])"
    by (simp add: generator_state_def)
  have flags: "is_stop_iteration stopped \<and> is_error stopped"
    by (simp add: stopped_def)
  note a = generator_stop_precedes_error [OF stop, of fresh_pair, THEN conjunct1, THEN mp, OF flags]
  show ?thesis using flags a by (intro conjI) simp_all
qed

subsection \<open>One step of enumerate\<close>

text \<open>
  Claim C6. On every \<^verbatim>\<open>iternext\<close> call on an enumerate whose counter cell holds \<open>c\<close>, the
  source is queried in the state in which the cell already holds \<open>c + 1\<close>, whatever the
  source then answers; when the source's result is valid with value \<open>v\<close> the call returns
  the pair of the original \<open>c\<close> and \<open>v\<close>, and when it is not the call returns Exhausted,
  the increment having happened all the same.
\<close>

theorem enumerate_counts_before_source:
  assumes "call_iternext u src ((note_call (EnumV c src) \<sigma>)\<lparr>mem := (mem \<sigma>)(c := mem \<sigma> c + 1)\<rparr>)
             = (Inr r, \<tau>)"
  shows "iternext u (EnumV c src) \<sigma>
           = (if is_valid r then Valid (Struct [Intp (mem \<sigma> c), yielded_value r]) else Exhausted, \<tau>)"
  using assms
  by (simp add: iternext_def iternext_enumerate_def note_call_def Let_def is_valid_def
      yielded_value_def set_valid_def yield_val_def)

theorem enumerate_counts_before_source_witness:
  "call_iternext fresh_pair (SeqIter 0)
      ((note_call (EnumV 1 (SeqIter 0)) scenario_A_state)
         \<lparr>mem := (mem scenario_A_state)(1 := mem scenario_A_state 1 + 1)\<rparr>)
     = (Inr \<lparr>first = Elem 10, second = True\<rparr>,
        snd (call_iternext fresh_pair (SeqIter 0)
          ((note_call (EnumV 1 (SeqIter 0)) scenario_A_state)
             \<lparr>mem := (mem scenario_A_state)(1 := mem scenario_A_state 1 + 1)\<rparr>)))
   \<and> mem scenario_A_state 1 = 5
   \<and> mem (snd (iternext fresh_pair (EnumV 1 (SeqIter 0)) scenario_A_state)) 1 = 6
   \<and> fst (iternext fresh_pair (EnumV 1 (SeqIter 0)) scenario_A_state)
       = Valid (Struct [Intp 5, Elem 10])"
proof -
  have h: "call_iternext fresh_pair (SeqIter 0)
      ((note_call (EnumV 1 (SeqIter 0)) scenario_A_state)
         \<lparr>mem := (mem scenario_A_state)(1 := mem scenario_A_state 1 + 1)\<rparr>)
     = (Inr \<lparr>first = Elem 10, second = True\<rparr>,
        snd (call_iternext fresh_pair (SeqIter 0)
          ((note_call (EnumV 1 (SeqIter 0)) scenario_A_state)
             \<lparr>mem := (mem scenario_A_state)(1 := mem scenario_A_state 1 + 1)\<rparr>)))"
    by (simp add: scenario_A_state_def enumerate_object_def sequence_getiter_def alloca_once_def
        impl_ret_new_ref_def empty_state_def iternext_seq_def note_call_def fresh_pair_def
        yield_val_def set_valid_def)
  have m: "mem scenario_A_state 1 = 5"
    by (simp add: scenario_A_state_def enumerate_object_def sequence_getiter_def alloca_once_def
        impl_ret_new_ref_def empty_state_def)
  have m': "mem (snd (call_iternext fresh_pair (SeqIter 0)
          ((note_call (EnumV 1 (SeqIter 0)) scenario_A_state)
             \<lparr>mem := (mem scenario_A_state)(1 := mem scenario_A_state 1 + 1)\<rparr>))) 1 = 6"
    by (simp add: scenario_A_state_def enumerate_object_def sequence_getiter_def alloca_once_def
        impl_ret_new_ref_def empty_state_def iternext_seq_def note_call_def)
  note step = enumerate_counts_before_source [OF h]
  have a: "mem (snd (iternext fresh_pair (EnumV 1 (SeqIter 0)) scenario_A_state)) 1 = 6"
    unfolding step using m' by simp
  have b: "fst (iternext fresh_pair (EnumV 1 (SeqIter 0)) scenario_A_state)
       = Valid (Struct [Intp 5, Elem 10])"
    unfolding step using m by (simp add: is_valid_def yielded_value_def)
  show ?thesis using h m a b by (intro conjI)
qed

subsection \<open>One round of zip\<close>

lemma zip_loop_append:
  "zip_loop ci (xs @ ys) v vals \<sigma> =
     (case zip_loop ci xs v vals \<sigma> of
        (Inl st, \<tau>) \<Rightarrow> (Inl st, \<tau>)
      | (Inr (v', vals'), \<tau>) \<Rightarrow> zip_loop ci ys v' vals' \<tau>)"
  by (induction xs arbitrary: v vals \<sigma>) (auto split: prod.splits sum.splits)

lemma zip_loop_fails_at:
  assumes "j < length its"
    and "zip_loop ci (take j its) v vals \<sigma> = (Inr acc, \<sigma>j)"
    and "ci (its ! j) \<sigma>j = (Inl st, \<tau>)"
  shows "zip_loop ci its v vals \<sigma> = (Inl st, \<tau>)"
proof -
  have its: "its = take j its @ (its ! j) # drop (Suc j) its"
    using assms(1) by (simp add: id_take_nth_drop)
  obtain v' vals' where acc: "acc = (v', vals')" by (cases acc)
  have "zip_loop ci (take j its @ (its ! j) # drop (Suc j) its) v vals \<sigma> = (Inl st, \<tau>)"
    unfolding zip_loop_append using assms(2,3) by (simp add: acc)
  then show ?thesis using its by simp
qed




text \<open>
  In scenario C the first source is exhausted from the start, and the second source is
  called in that round all the same.
\<close>

lemma zip_round_no_short_circuit_example:
  "calls (snd (call_iternext fresh_pair (ZipV [SeqIter 0, SeqIter 1]) scenario_C_state))
     = [ZipV [SeqIter 0, SeqIter 1], SeqIter 0, SeqIter 1]
   \<and> seqs (snd (call_iternext fresh_pair (ZipV [SeqIter 0, SeqIter 1]) scenario_C_state)) 1
     = [Elem 2]"
  by (simp add: scenario_C_state_def make_zip_object_def sequence_getiter_def alloca_once_def
      impl_ret_new_ref_def empty_state_def iternext_zip_def iternext_seq_def note_call_def
      fresh_pair_def yield_val_def set_valid_def set_exhausted_def is_valid_def
      yielded_value_def)

subsection \<open>Failures of a source\<close>

text \<open>
  Claim C4. When a source call inside a combinator's \<^verbatim>\<open>iternext\<close> produces a propagated
  failure, the combinator's \<^verbatim>\<open>iternext\<close> produces that same failure and ends in the state
  in which the source failed: for an enumerate, the failure of its source; for a zip, the
  failure of source \<open>j\<close> after the sources before it have returned pairs. The sources after
  \<open>j\<close> are not called (the final state is the one source \<open>j\<close> left), no validity is
  computed, and the result is neither Valid nor Exhausted.
\<close>

theorem combinators_forward_failure:
  "(call_iternext u src ((note_call (EnumV c src) \<sigma>)\<lparr>mem := (mem \<sigma>)(c := mem \<sigma> c + 1)\<rparr>)
      = (Inl st, \<tau>)
    \<longrightarrow> iternext u (EnumV c src) \<sigma> = (PropagatedFailure st, \<tau>))
   \<and> (j < length its
      \<and> zip_loop (call_iternext u) (take j its) True [] (note_call (ZipV its) \<sigma>) = (Inr acc, \<sigma>j)
      \<and> call_iternext u (its ! j) \<sigma>j = (Inl st, \<tau>)
    \<longrightarrow> iternext u (ZipV its) \<sigma> = (PropagatedFailure st, \<tau>))"
proof (intro conjI impI)
  assume "call_iternext u src ((note_call (EnumV c src) \<sigma>)\<lparr>mem := (mem \<sigma>)(c := mem \<sigma> c + 1)\<rparr>)
      = (Inl st, \<tau>)"
  then show "iternext u (EnumV c src) \<sigma> = (PropagatedFailure st, \<tau>)"
    by (simp add: iternext_def iternext_enumerate_def note_call_def Let_def)
next
  assume h: "j < length its
      \<and> zip_loop (call_iternext u) (take j its) True [] (note_call (ZipV its) \<sigma>) = (Inr acc, \<sigma>j)
      \<and> call_iternext u (its ! j) \<sigma>j = (Inl st, \<tau>)"
  then have "zip_loop (call_iternext u) its True [] (note_call (ZipV its) \<sigma>) = (Inl st, \<tau>)"
    by (intro zip_loop_fails_at [where j = j and acc = acc and \<sigma>j = \<sigma>j]) simp_all
  moreover have "its \<noteq> []" using h by auto
  ultimately show "iternext u (ZipV its) \<sigma> = (PropagatedFailure st, \<tau>)"
    by (simp add: iternext_def iternext_zip_def)
qed

theorem combinators_forward_failure_witness:
  "call_iternext fresh_pair (GenV 7)
      ((note_call (EnumV 3 (GenV 7)) (generator_state (\<lambda>_. (errored, Struct []))))
         \<lparr>mem := (mem (generator_state (\<lambda>_. (errored, Struct []))))
            (3 := mem (generator_state (\<lambda>_. (errored, Struct []))) 3 + 1)\<rparr>)
     = (Inl errored,
        snd (call_iternext fresh_pair (GenV 7)
          ((note_call (EnumV 3 (GenV 7)) (generator_state (\<lambda>_. (errored, Struct []))))
             \<lparr>mem := (mem (generator_state (\<lambda>_. (errored, Struct []))))
                (3 := mem (generator_state (\<lambda>_. (errored, Struct []))) 3 + 1)\<rparr>)))
   \<and> iternext fresh_pair (EnumV 3 (GenV 7)) (generator_state (\<lambda>_. (errored, Struct [])))
     = (PropagatedFailure errored,
        snd (call_iternext fresh_pair (GenV 7)
          ((note_call (EnumV 3 (GenV 7)) (generator_state (\<lambda>_. (errored, Struct []))))
             \<lparr>mem := (mem (generator_state (\<lambda>_. (errored, Struct []))))
                (3 := mem (generator_state (\<lambda>_. (errored, Struct []))) 3 + 1)\<rparr>)))
   \<and> 1 < length [SeqIter 0, GenV 7, SeqIter 1]
   \<and> zip_loop (call_iternext fresh_pair) (take 1 [SeqIter 0, GenV 7, SeqIter 1]) True []
        (note_call (ZipV [SeqIter 0, GenV 7, SeqIter 1]) failing_state)
     = (Inr (True, [Elem 1]),
        snd (zip_loop (call_iternext fresh_pair) (take 1 [SeqIter 0, GenV 7, SeqIter 1]) True []
          (note_call (ZipV [SeqIter 0, GenV 7, SeqIter 1]) failing_state)))
   \<and> call_iternext fresh_pair ([SeqIter 0, GenV 7, SeqIter 1] ! 1)
        (snd (zip_loop (call_iternext fresh_pair) (take 1 [SeqIter 0, GenV 7, SeqIter 1]) True []
          (note_call (ZipV [SeqIter 0, GenV 7, SeqIter 1]) failing_state)))
     = (Inl errored,
        snd (call_iternext fresh_pair ([SeqIter 0, GenV 7, SeqIter 1] ! 1)
          (snd (zip_loop (call_iternext fresh_pair) (take 1 [SeqIter 0, GenV 7, SeqIter 1]) True []
            (note_call (ZipV [SeqIter 0, GenV 7, SeqIter 1]) failing_state)))))
   \<and> iternext fresh_pair (ZipV [SeqIter 0, GenV 7, SeqIter 1]) failing_state
     = (PropagatedFailure errored,
        snd (call_iternext fresh_pair ([SeqIter 0, GenV 7, SeqIter 1] ! 1)
          (snd (zip_loop (call_iternext fresh_pair) (take 1 [SeqIter 0, GenV 7, SeqIter 1]) True []
            (note_call (ZipV [SeqIter 0, GenV 7, SeqIter 1]) failing_state)))))"
proof -
  have a: "call_iternext fresh_pair (GenV 7)
      ((note_call (EnumV 3 (GenV 7)) (generator_state (\<lambda>_. (errored, Struct []))))
         \<lparr>mem := (mem (generator_state (\<lambda>_. (errored, Struct []))))
            (3 := mem (generator_state (\<lambda>_. (errored, Struct []))) 3 + 1)\<rparr>)
     = (Inl errored,
        snd (call_iternext fresh_pair (GenV 7)
          ((note_call (EnumV 3 (GenV 7)) (generator_state (\<lambda>_. (errored, Struct []))))
             \<lparr>mem := (mem (generator_state (\<lambda>_. (errored, Struct []))))
                (3 := mem (generator_state (\<lambda>_. (errored, Struct []))) 3 + 1)\<rparr>)))"
    by (simp add: generator_state_def empty_state_def note_call_def iternext_zip_generator_def
        get_generator_impl_def return_status_propagate_def errored_def Let_def)
  note b = combinators_forward_failure [THEN conjunct1, THEN mp, OF a]
  have c: "1 < length [SeqIter 0, GenV 7, SeqIter 1]" by simp
  have d: "zip_loop (call_iternext fresh_pair) (take 1 [SeqIter 0, GenV 7, SeqIter 1]) True []
        (note_call (ZipV [SeqIter 0, GenV 7, SeqIter 1]) failing_state)
     = (Inr (True, [Elem 1]),
        snd (zip_loop (call_iternext fresh_pair) (take 1 [SeqIter 0, GenV 7, SeqIter 1]) True []
          (note_call (ZipV [SeqIter 0, GenV 7, SeqIter 1]) failing_state)))"
    by (simp add: failing_state_def make_zip_object_def sequence_getiter_def alloca_once_def
        impl_ret_new_ref_def iterator_getiter_def impl_ret_borrowed_def generator_state_def
        empty_state_def note_call_def iternext_seq_def fresh_pair_def yield_val_def
        set_valid_def is_valid_def yielded_value_def)
  have e: "call_iternext fresh_pair ([SeqIter 0, GenV 7, SeqIter 1] ! 1)
        (snd (zip_loop (call_iternext fresh_pair) (take 1 [SeqIter 0, GenV 7, SeqIter 1]) True []
          (note_call (ZipV [SeqIter 0, GenV 7, SeqIter 1]) failing_state)))
     = (Inl errored,
        snd (call_iternext fresh_pair ([SeqIter 0, GenV 7, SeqIter 1] ! 1)
          (snd (zip_loop (call_iternext fresh_pair) (take 1 [SeqIter 0, GenV 7, SeqIter 1]) True []
            (note_call (ZipV [SeqIter 0, GenV 7, SeqIter 1]) failing_state)))))"
    by (simp add: failing_state_def make_zip_object_def sequence_getiter_def alloca_once_def
        impl_ret_new_ref_def iterator_getiter_def impl_ret_borrowed_def generator_state_def
        empty_state_def note_call_def iternext_seq_def iternext_zip_generator_def
        get_generator_impl_def return_status_propagate_def errored_def Let_def
        yield_val_def set_valid_def is_valid_def yielded_value_def)
  note f = combinators_forward_failure [THEN conjunct2, THEN mp, OF conjI [OF c conjI [OF d e]]]
  show ?thesis using a b c d e f by (intro conjI)
qed

text \<open>
  In that zip the third source is never called: the log ends with the generator.
\<close>

lemma zip_failure_skips_later_sources_example:
  "calls (snd (iternext fresh_pair (ZipV [SeqIter 0, GenV 7, SeqIter 1]) failing_state))
     = [ZipV [SeqIter 0, GenV 7, SeqIter 1], SeqIter 0, GenV 7]"
  by (simp add: iternext_def failing_state_def make_zip_object_def sequence_getiter_def
      alloca_once_def impl_ret_new_ref_def iterator_getiter_def impl_ret_borrowed_def
      generator_state_def empty_state_def note_call_def iternext_zip_def iternext_seq_def
      iternext_zip_generator_def get_generator_impl_def return_status_propagate_def errored_def
      Let_def yield_val_def set_valid_def is_valid_def yielded_value_def)

subsection \<open>zip over sequences\<close>

lemma seq_step:
  "call_iternext u (SeqIter a) \<sigma> =
     (case seqs \<sigma> a of
        [] \<Rightarrow> (Inr (u\<lparr>second := False\<rparr>), note_call (SeqIter a) \<sigma>)
      | x # xs \<Rightarrow> (Inr (u\<lparr>second := True, first := x\<rparr>),
                  (note_call (SeqIter a) \<sigma>)\<lparr>seqs := (seqs \<sigma>)(a := xs)\<rparr>))"
  by (simp add: iternext_seq_def note_call_def set_exhausted_def set_valid_def yield_val_def
      split: list.splits)

lemma zip_loop_seqs:
  assumes "distinct as"
  shows "\<exists>\<sigma>'. zip_loop (call_iternext u) (map SeqIter as) v vals \<sigma>
             = (Inr (v \<and> list_all (\<lambda>a. seqs \<sigma> a \<noteq> []) as,
                     vals @ map (\<lambda>a. case seqs \<sigma> a of [] \<Rightarrow> first u | x # _ \<Rightarrow> x) as), \<sigma>')
           \<and> (\<forall>a. seqs \<sigma>' a = (if a \<in> set as then tl (seqs \<sigma> a) else seqs \<sigma> a))"
  using assms
proof (induction as arbitrary: v vals \<sigma>)
  case Nil
  show ?case by simp
next
  case (Cons a as)
  have d: "distinct as" and na: "a \<notin> set as" using Cons.prems by simp_all
  show ?case
  proof (cases "seqs \<sigma> a")
    case Nil
    let ?\<sigma>1 = "note_call (SeqIter a) \<sigma>"
    have s1: "seqs ?\<sigma>1 = seqs \<sigma>" by (simp add: note_call_def)
    from Cons.IH [OF d, of "v \<and> False" "vals @ [first u]" ?\<sigma>1]
    obtain \<sigma>' where
      loop: "zip_loop (call_iternext u) (map SeqIter as) (v \<and> False) (vals @ [first u]) ?\<sigma>1
             = (Inr ((v \<and> False) \<and> list_all (\<lambda>a. seqs ?\<sigma>1 a \<noteq> []) as,
                     (vals @ [first u]) @ map (\<lambda>a. case seqs ?\<sigma>1 a of [] \<Rightarrow> first u | x # _ \<Rightarrow> x) as), \<sigma>')"
      and fr: "\<forall>b. seqs \<sigma>' b = (if b \<in> set as then tl (seqs ?\<sigma>1 b) else seqs ?\<sigma>1 b)"
      by blast
    show ?thesis
      apply (rule exI [of _ \<sigma>'])
      using loop fr Nil s1
      by (simp add: seq_step is_valid_def yielded_value_def del: call_iternext.simps)
  next
    case (Cons x xs)
    let ?\<sigma>1 = "(note_call (SeqIter a) \<sigma>)\<lparr>seqs := (seqs \<sigma>)(a := xs)\<rparr>"
    have s1: "\<And>b. b \<noteq> a \<Longrightarrow> seqs ?\<sigma>1 b = seqs \<sigma> b" "seqs ?\<sigma>1 a = xs" by simp_all
    have same: "map (\<lambda>a. case seqs ?\<sigma>1 a of [] \<Rightarrow> first u | x # _ \<Rightarrow> x) as
        = map (\<lambda>a. case seqs \<sigma> a of [] \<Rightarrow> first u | x # _ \<Rightarrow> x) as"
      using na by (intro map_cong) auto
    have same': "list_all (\<lambda>a. seqs ?\<sigma>1 a \<noteq> []) as = list_all (\<lambda>a. seqs \<sigma> a \<noteq> []) as"
      using na by (auto simp add: list_all_iff)
    from Cons.IH [OF d, of "v \<and> True" "vals @ [x]" ?\<sigma>1]
    obtain \<sigma>' where
      loop: "zip_loop (call_iternext u) (map SeqIter as) (v \<and> True) (vals @ [x]) ?\<sigma>1
             = (Inr ((v \<and> True) \<and> list_all (\<lambda>a. seqs ?\<sigma>1 a \<noteq> []) as,
                     (vals @ [x]) @ map (\<lambda>a. case seqs ?\<sigma>1 a of [] \<Rightarrow> first u | x # _ \<Rightarrow> x) as), \<sigma>')"
      and fr: "\<forall>b. seqs \<sigma>' b = (if b \<in> set as then tl (seqs ?\<sigma>1 b) else seqs ?\<sigma>1 b)"
      by blast
    show ?thesis
      apply (rule exI [of _ \<sigma>'])
      using loop fr Cons na unfolding same same'
      by (auto simp add: seq_step is_valid_def yielded_value_def simp del: call_iternext.simps)
  qed
qed


lemma zip_seq_round:
  assumes "distinct as" and "as \<noteq> []"
  shows "\<exists>\<sigma>'. iternext u (ZipV (map SeqIter as)) \<sigma>
             = (if list_all (\<lambda>a. seqs \<sigma> a \<noteq> []) as
                then Valid (Struct (map (\<lambda>a. seqs \<sigma> a ! 0) as)) else Exhausted, \<sigma>')
           \<and> (\<forall>a. seqs \<sigma>' a = (if a \<in> set as then tl (seqs \<sigma> a) else seqs \<sigma> a))"
proof -
  let ?\<sigma>0 = "note_call (ZipV (map SeqIter as)) \<sigma>"
  have s0: "seqs ?\<sigma>0 = seqs \<sigma>" by (simp add: note_call_def)
  from zip_loop_seqs [OF assms(1), of u True "[]" ?\<sigma>0] obtain \<sigma>' where
    loop: "zip_loop (call_iternext u) (map SeqIter as) True [] ?\<sigma>0
             = (Inr (list_all (\<lambda>a. seqs \<sigma> a \<noteq> []) as,
                     map (\<lambda>a. case seqs \<sigma> a of [] \<Rightarrow> first u | x # _ \<Rightarrow> x) as), \<sigma>')"
    and fr: "\<forall>a. seqs \<sigma>' a = (if a \<in> set as then tl (seqs \<sigma> a) else seqs \<sigma> a)"
    unfolding s0 by auto
  have heads: "list_all (\<lambda>a. seqs \<sigma> a \<noteq> []) as \<Longrightarrow>
      map (\<lambda>a. case seqs \<sigma> a of [] \<Rightarrow> first u | x # _ \<Rightarrow> x) as = map (\<lambda>a. seqs \<sigma> a ! 0) as"
    by (intro map_cong) (auto simp add: list_all_iff split: list.splits)
  have "iternext u (ZipV (map SeqIter as)) \<sigma>
      = (if list_all (\<lambda>a. seqs \<sigma> a \<noteq> []) as
         then Valid (Struct (map (\<lambda>a. seqs \<sigma> a ! 0) as)) else Exhausted, \<sigma>')"
    using assms(2) loop heads
    by (simp add: iternext_def iternext_zip_def Let_def is_valid_def yielded_value_def
        set_valid_def yield_val_def del: call_iternext.simps add: call_iternext.simps(3))
  with fr show ?thesis by blast
qed

lemma drive_zip_seqs:
  assumes "distinct as" and "as \<noteq> []"
    and "\<forall>a\<in>set as. m \<le> length (seqs \<sigma> a)"
    and "\<exists>a\<in>set as. length (seqs \<sigma> a) = m"
    and "m < n"
  shows "fst (drive n u (ZipV (map SeqIter as)) \<sigma>)
           = map (\<lambda>i. Valid (Struct (map (\<lambda>a. seqs \<sigma> a ! i) as))) [0..<m] @ [Exhausted]"
  using assms(3-5)
proof (induction m arbitrary: \<sigma> n)
  case 0
  then obtain n' where n: "n = Suc n'" by (cases n) auto
  from zip_seq_round [OF assms(1,2), of u \<sigma>] 0(2)
  have "fst (iternext u (ZipV (map SeqIter as)) \<sigma>) = Exhausted"
    by (auto simp add: list_all_iff)
  then show ?case unfolding n by (simp only: drive_Suc_exhausted) simp
next
  case (Suc m)
  then obtain n' where n: "n = Suc n'" and n': "m < n'" by (cases n) auto
  have all: "list_all (\<lambda>a. seqs \<sigma> a \<noteq> []) as"
    using Suc.prems(1) by (auto simp add: list_all_iff)
  from zip_seq_round [OF assms(1,2), of u \<sigma>] all obtain \<sigma>' where
    step: "iternext u (ZipV (map SeqIter as)) \<sigma> = (Valid (Struct (map (\<lambda>a. seqs \<sigma> a ! 0) as)), \<sigma>')"
    and fr: "\<forall>a. seqs \<sigma>' a = (if a \<in> set as then tl (seqs \<sigma> a) else seqs \<sigma> a)"
    by auto
  have lens: "\<forall>a\<in>set as. m \<le> length (seqs \<sigma>' a)"
    using Suc.prems(1) fr by auto
  have ex: "\<exists>a\<in>set as. length (seqs \<sigma>' a) = m"
  proof -
    from Suc.prems(2) obtain a where a: "a \<in> set as" "length (seqs \<sigma> a) = Suc m" by blast
    then have "length (seqs \<sigma>' a) = m" using fr by simp
    with a(1) show ?thesis by blast
  qed
  have nth: "\<And>i a. i < m \<Longrightarrow> a \<in> set as \<Longrightarrow> seqs \<sigma>' a ! i = seqs \<sigma> a ! Suc i"
  proof -
    fix i a assume i: "i < m" and a: "a \<in> set as"
    then have "Suc m \<le> length (seqs \<sigma> a)" using Suc.prems(1) by simp
    then show "seqs \<sigma>' a ! i = seqs \<sigma> a ! Suc i"
      using fr a i by (simp add: nth_tl)
  qed
  have rest: "fst (drive n' u (ZipV (map SeqIter as)) \<sigma>')
      = map (\<lambda>i. Valid (Struct (map (\<lambda>a. seqs \<sigma> a ! Suc i) as))) [0..<m] @ [Exhausted]"
    unfolding Suc.IH [OF lens ex n'] using nth by simp
  show ?case
    unfolding n drive_Suc_valid [OF step] rest
    by (simp add: map_upt_Suc del: upt_Suc)
qed


lemma zip_getiters_seqs:
  "\<exists>\<sigma>'. zip_getiters (map Sequence Ss) \<sigma> = (map SeqIter [nxt \<sigma>..<nxt \<sigma> + length Ss], \<sigma>')
         \<and> (\<forall>a. seqs \<sigma>' a = (if nxt \<sigma> \<le> a \<and> a < nxt \<sigma> + length Ss then Ss ! (a - nxt \<sigma>)
                               else seqs \<sigma> a))"
proof (induction Ss arbitrary: \<sigma>)
  case Nil
  show ?case by auto
next
  case (Cons S rest)
  let ?\<sigma>1 = "\<sigma>\<lparr>nxt := Suc (nxt \<sigma>), seqs := (seqs \<sigma>)(nxt \<sigma> := S)\<rparr>"
  have get: "call_getiter (Sequence S) \<sigma> = (SeqIter (nxt \<sigma>), ?\<sigma>1)"
    by (simp add: sequence_getiter_def alloca_once_def impl_ret_new_ref_def)
  from Cons.IH [of ?\<sigma>1] obtain \<sigma>' where
    rest: "zip_getiters (map Sequence rest) ?\<sigma>1
             = (map SeqIter [Suc (nxt \<sigma>)..<Suc (nxt \<sigma>) + length rest], \<sigma>')"
    and fr: "\<forall>a. seqs \<sigma>' a = (if Suc (nxt \<sigma>) \<le> a \<and> a < Suc (nxt \<sigma>) + length rest
                               then rest ! (a - Suc (nxt \<sigma>)) else seqs ?\<sigma>1 a)"
    by auto
  have upt: "[nxt \<sigma>..<nxt \<sigma> + length (S # rest)]
      = nxt \<sigma> # [Suc (nxt \<sigma>)..<Suc (nxt \<sigma>) + length rest]"
    by (simp add: upt_rec)
  have "zip_getiters (Sequence S # map Sequence rest) \<sigma>
      = (SeqIter (nxt \<sigma>) # map SeqIter [Suc (nxt \<sigma>)..<Suc (nxt \<sigma>) + length rest], \<sigma>')"
    by (simp only: zip_getiters.simps get rest prod.case)
  then have its: "zip_getiters (map Sequence (S # rest)) \<sigma>
      = (map SeqIter [nxt \<sigma>..<nxt \<sigma> + length (S # rest)], \<sigma>')"
    by (simp only: upt list.map)
  have "\<forall>a. seqs \<sigma>' a = (if nxt \<sigma> \<le> a \<and> a < nxt \<sigma> + length (S # rest)
                           then (S # rest) ! (a - nxt \<sigma>) else seqs \<sigma> a)"
    using fr by (auto simp add: nth_Cons' Suc_diff_le)
  with its show ?case by blast
qed

text \<open>
  Claim C2. For every \<open>N \<ge> 1\<close> source sequences, the zip built over them, driven for more
  calls than the least of their lengths, yields exactly that many Valid results, the
  \<open>i\<close>-th of them the tuple of the \<open>i\<close>-th elements of all the sources in source order, and
  then returns Exhausted.
\<close>

theorem zip_yields_min_length_tuples:
  assumes "Ss \<noteq> []"
    and "make_zip_object (map Sequence Ss) \<sigma> = (z, \<sigma>')"
    and "Min (set (map length Ss)) < n"
  shows "fst (drive n u z \<sigma>')
           = map (\<lambda>i. Valid (Struct (map (\<lambda>S. S ! i) Ss))) [0..<Min (set (map length Ss))]
             @ [Exhausted]"
proof -
  let ?as = "[nxt \<sigma>..<nxt \<sigma> + length Ss]"
  let ?m = "Min (set (map length Ss))"
  from zip_getiters_seqs [of Ss \<sigma>] assms(2) have z: "z = ZipV (map SeqIter ?as)"
    and fr: "\<forall>a. seqs \<sigma>' a = (if nxt \<sigma> \<le> a \<and> a < nxt \<sigma> + length Ss then Ss ! (a - nxt \<sigma>)
                               else seqs \<sigma> a)"
    by (auto simp add: make_zip_object_def impl_ret_new_ref_def)
  have cells: "map (seqs \<sigma>') ?as = Ss"
    using fr by (intro nth_equalityI) simp_all
  have d: "distinct ?as" by simp
  have ne: "?as \<noteq> []" using assms(1) by simp
  have lens_set: "(\<lambda>a. length (seqs \<sigma>' a)) ` set ?as = set (map length Ss)"
  proof -
    have "map length (map (seqs \<sigma>') ?as) = map length Ss" by (simp only: cells)
    then have "set (map (\<lambda>a. length (seqs \<sigma>' a)) ?as) = set (map length Ss)"
      by (simp add: comp_def)
    then show ?thesis by simp
  qed
  have fin: "finite (set (map length Ss))" and nonempty: "set (map length Ss) \<noteq> {}"
    using assms(1) by simp_all
  have lower: "\<forall>a\<in>set ?as. ?m \<le> length (seqs \<sigma>' a)"
  proof
    fix a assume "a \<in> set ?as"
    then have "length (seqs \<sigma>' a) \<in> set (map length Ss)"
      using lens_set by blast
    then show "?m \<le> length (seqs \<sigma>' a)" using fin by (rule Min_le [rotated])
  qed
  have attained: "\<exists>a\<in>set ?as. length (seqs \<sigma>' a) = ?m"
  proof -
    have "?m \<in> set (map length Ss)" using fin nonempty by (rule Min_in)
    then have "?m \<in> (\<lambda>a. length (seqs \<sigma>' a)) ` set ?as" using lens_set by simp
    then obtain a where "a \<in> set ?as" and "length (seqs \<sigma>' a) = ?m"
      by (auto simp add: image_iff)
    then show ?thesis by (intro bexI [of _ a])
  qed
  have tuples: "\<And>i. map (\<lambda>a. seqs \<sigma>' a ! i) ?as = map (\<lambda>S. S ! i) Ss"
  proof -
    fix i
    have "map (\<lambda>S. S ! i) (map (seqs \<sigma>') ?as) = map (\<lambda>S. S ! i) Ss" by (simp only: cells)
    then show "map (\<lambda>a. seqs \<sigma>' a ! i) ?as = map (\<lambda>S. S ! i) Ss" by (simp add: comp_def)
  qed
  show ?thesis
    unfolding z drive_zip_seqs [OF d ne lower attained assms(3)] tuples ..
qed

theorem zip_yields_min_length_tuples_witness:
  "scenario_B \<noteq> []
   \<and> make_zip_object (map Sequence scenario_B) empty_state
       = (ZipV [SeqIter 0, SeqIter 1], scenario_B_state)
   \<and> Min (set (map length scenario_B)) < 3
   \<and> fst (drive 3 fresh_pair (ZipV [SeqIter 0, SeqIter 1]) scenario_B_state)
       = [Valid (Struct [Elem 1, Elem 9]), Valid (Struct [Elem 2, Elem 8]), Exhausted]"
proof -
  have h1: "scenario_B \<noteq> []"
    by (simp add: scenario_B_def)
  have h2: "make_zip_object (map Sequence scenario_B) empty_state
       = (ZipV [SeqIter 0, SeqIter 1], scenario_B_state)"
    by (simp add: scenario_B_state_def scenario_B_def make_zip_object_def sequence_getiter_def
        alloca_once_def impl_ret_new_ref_def empty_state_def)
  have m: "Min (set (map length scenario_B)) = 2"
    by (simp add: scenario_B_def)
  have h3: "Min (set (map length scenario_B)) < 3"
    unfolding m by simp
  have e: "map (\<lambda>i. Valid (Struct (map (\<lambda>S. S ! i) scenario_B)))
             [0..<Min (set (map length scenario_B))] @ [Exhausted]
       = [Valid (Struct [Elem 1, Elem 9]), Valid (Struct [Elem 2, Elem 8]), Exhausted]"
    unfolding m by (simp add: scenario_B_def upt_rec)
  have c: "fst (drive 3 fresh_pair (ZipV [SeqIter 0, SeqIter 1]) scenario_B_state)
       = [Valid (Struct [Elem 1, Elem 9]), Valid (Struct [Elem 2, Elem 8]), Exhausted]"
    using zip_yields_min_length_tuples [OF h1 h2 h3, of fresh_pair] by (simp only: e)
  show ?thesis using h1 h2 h3 c by (intro conjI)
qed

text \<open>Scenario C of the specification: no tuple at all.\<close>

lemma zip_scenario_C:
  "fst (drive 3 fresh_pair (ZipV [SeqIter 0, SeqIter 1]) scenario_C_state) = [Exhausted]"
  by (simp add: eval_nat_numeral iternext_def scenario_C_state_def make_zip_object_def
      sequence_getiter_def alloca_once_def impl_ret_new_ref_def empty_state_def iternext_zip_def
      iternext_seq_def note_call_def fresh_pair_def yield_val_def set_valid_def
      set_exhausted_def is_valid_def yielded_value_def)

end
